theory Spec2Isabelle
  imports Main
begin

section \<open>The store of \<^verbatim>\<open>src/db/db.py\<close>\<close>

text \<open>
  The class \<^verbatim>\<open>Database\<close> wraps one SQLite connection. Its persistent state is the
  content of the four tables created by \<^verbatim>\<open>_initialize_database\<close>. Each table is a
  list of rows in insertion order; a row is a record with one field per column. The
  columns \<^verbatim>\<open>id\<close> and \<^verbatim>\<open>name\<close> occur in several tables, so their fields carry the table
  name. The rowid counters of \<^verbatim>\<open>AUTOINCREMENT\<close> (SQLite's table \<^verbatim>\<open>sqlite_sequence\<close>) are
  part of the state.

  Python's \<^verbatim>\<open>int\<close> is \<open>int\<close>, \<^verbatim>\<open>str\<close> is \<open>string\<close>. The value of \<^verbatim>\<open>datetime.now()\<close>
  is read from the environment, so every operation that reads the clock takes the
  reading as an argument.
\<close>

subsection \<open>Rows and tables\<close>

type_synonym datetime = nat

record Users_row =
  Users_id :: int
  handle :: string
  solved_count :: int
  solved_problems :: string
  last_check_time :: datetime
  last_update_time :: datetime

record Servers_row =
  Servers_id :: int
  Servers_name :: string

record Channels_row =
  Channels_id :: int
  Channels_name :: string
  Channels_server_id :: int

record UserChannelMapping_row =
  UserChannelMapping_id :: int
  user_id :: int
  channel_id :: int
  server_id :: int

record database =
  Users :: "Users_row list"
  Servers :: "Servers_row list"
  Channels :: "Channels_row list"
  UserChannelMapping :: "UserChannelMapping_row list"
  Users_seq :: int
  Servers_seq :: int
  Channels_seq :: int
  UserChannelMapping_seq :: int

text \<open>
  The exceptions an operation on an open connection can raise:
  \<^verbatim>\<open>sqlite3.IntegrityError\<close> (a violated \<^verbatim>\<open>UNIQUE\<close> constraint),
  the \<^verbatim>\<open>ValueError\<close> of \<^verbatim>\<open>map_user_to_channel\<close>, and the \<^verbatim>\<open>OverflowError\<close> of the
  \<^verbatim>\<open>sqlite3\<close> module when an integer parameter does not fit SQLite's 64-bit
  \<^verbatim>\<open>INTEGER\<close>.
\<close>

datatype error = IntegrityError | ValueError | OverflowError

text \<open>
  The state after \<^verbatim>\<open>_initialize_database\<close> on a fresh file: \<^verbatim>\<open>CREATE TABLE IF NOT EXISTS\<close>
  creates four empty tables.
\<close>

definition initialize_database :: database where
  "initialize_database =
     \<lparr>Users = [], Servers = [], Channels = [], UserChannelMapping = [],
      Users_seq = 0, Servers_seq = 0, Channels_seq = 0, UserChannelMapping_seq = 0\<rparr>"

text \<open>
  \<^verbatim>\<open>INTEGER PRIMARY KEY AUTOINCREMENT\<close>: the new rowid is one more than the largest
  rowid that ever existed in the table, which is the larger of the counter in
  \<^verbatim>\<open>sqlite_sequence\<close> and the largest rowid present.
\<close>

definition autoincrement :: "int list \<Rightarrow> int \<Rightarrow> int" where
  "autoincrement ids seq = fold max ids seq + 1"

text \<open>Binding a Python \<^verbatim>\<open>int\<close> to a statement parameter: it must fit 64 bits signed.\<close>

definition fits_int64 :: "int \<Rightarrow> bool" where
  "fits_int64 i \<longleftrightarrow> - (2 ^ 63) \<le> i \<and> i < 2 ^ 63"

subsection \<open>\<^verbatim>\<open>json.dumps\<close> and \<^verbatim>\<open>json.loads\<close> on lists of integers\<close>

text \<open>
  \<^verbatim>\<open>json.dumps(xs)\<close> of a list of integers with the default separators: the decimal
  numerals joined by a comma and a space, in brackets.
\<close>

definition digit_char :: "nat \<Rightarrow> char" where
  "digit_char d = char_of (48 + d)"

fun str_nat :: "nat \<Rightarrow> string" where
  "str_nat n = (if n < 10 then [digit_char n] else str_nat (n div 10) @ [digit_char (n mod 10)])"

declare str_nat.simps [simp del]

definition str_int :: "int \<Rightarrow> string" where
  "str_int i = (if i < 0 then CHR ''-'' # str_nat (nat (- i)) else str_nat (nat i))"

fun join_items :: "string list \<Rightarrow> string" where
  "join_items [] = []"
| "join_items [s] = s"
| "join_items (s # t # ss) = s @ '', '' @ join_items (t # ss)"

definition json_dumps :: "int list \<Rightarrow> string" where
  "json_dumps xs = ''['' @ join_items (map str_int xs) @ '']''"

text \<open>
  \<^verbatim>\<open>json.loads\<close> restricted to the documents that are arrays of integers; every other
  document, and every text that is not JSON, gives \<open>None\<close>. JSON whitespace is allowed
  around every token; a numeral is an optional minus sign and then either \<^verbatim>\<open>0\<close> or a
  digit sequence that does not start with \<^verbatim>\<open>0\<close>. The store only writes the column
  \<^verbatim>\<open>solved_problems\<close>; decoding is what a reader of the column does with the text.
\<close>

definition is_ws :: "char \<Rightarrow> bool" where
  "is_ws c \<longleftrightarrow> c = CHR '' '' \<or> c = CHR 0x09 \<or> c = CHR 0x0A \<or> c = CHR 0x0D"

definition is_digit :: "char \<Rightarrow> bool" where
  "is_digit c \<longleftrightarrow> 48 \<le> (of_char c :: nat) \<and> (of_char c :: nat) \<le> 57"

definition digit_val :: "char \<Rightarrow> nat" where
  "digit_val c = of_char c - 48"

definition skip_ws :: "string \<Rightarrow> string" where
  "skip_ws s = dropWhile is_ws s"

definition nat_of_digits :: "string \<Rightarrow> nat" where
  "nat_of_digits ds = foldl (\<lambda>a c. 10 * a + digit_val c) 0 ds"

definition parse_nat :: "string \<Rightarrow> (nat \<times> string) option" where
  "parse_nat s =
     (let ds = takeWhile is_digit s; r = dropWhile is_digit s
      in if ds = [] then None
         else if hd ds = CHR ''0'' \<and> length ds > 1 then None
         else Some (nat_of_digits ds, r))"

definition parse_int :: "string \<Rightarrow> (int \<times> string) option" where
  "parse_int s =
     (case s of
        [] \<Rightarrow> None
      | c # r \<Rightarrow>
          if c = CHR ''-'' then map_option (\<lambda>(n, t). (- int n, t)) (parse_nat r)
          else map_option (\<lambda>(n, t). (int n, t)) (parse_nat s))"

lemma parse_nat_length: "parse_nat s = Some (n, r) \<Longrightarrow> length r \<le> length s"
  by (auto simp: parse_nat_def Let_def length_dropWhile_le split: if_splits)

lemma parse_int_length: "parse_int s = Some (i, r) \<Longrightarrow> length r \<le> length s"
  by (auto simp: parse_int_def split: list.splits if_splits dest!: parse_nat_length)

lemma skip_ws_length: "length (skip_ws s) \<le> length s"
  by (simp add: skip_ws_def length_dropWhile_le)

text \<open>The elements after the opening bracket, when the array is not empty.\<close>

function parse_elements :: "string \<Rightarrow> int list option" where
  "parse_elements s =
     (case parse_int (skip_ws s) of
        None \<Rightarrow> None
      | Some (i, r) \<Rightarrow>
          (case skip_ws r of
             [] \<Rightarrow> None
           | c # r' \<Rightarrow>
               if c = CHR '','' then map_option (Cons i) (parse_elements r')
               else if c = CHR '']'' then (if skip_ws r' = [] then Some [i] else None)
               else None))"
  by pat_completeness auto
termination
proof (relation "measure length", goal_cases)
  case 1
  show ?case by simp
next
  case (2 s x i r c r')
  have "length r \<le> length (skip_ws s)"
    using 2 by (auto dest: parse_int_length)
  moreover have "length (skip_ws r) \<le> length r"
    by (rule skip_ws_length)
  moreover have "length (skip_ws s) \<le> length s"
    by (rule skip_ws_length)
  ultimately show ?case using 2 by simp
qed

declare parse_elements.simps [simp del]

definition json_loads :: "string \<Rightarrow> int list option" where
  "json_loads s =
     (case skip_ws s of
        [] \<Rightarrow> None
      | c # r \<Rightarrow>
          if c \<noteq> CHR ''['' then None
          else (case skip_ws r of
                  [] \<Rightarrow> None
                | d # r' \<Rightarrow>
                    if d = CHR '']'' then (if skip_ws r' = [] then Some [] else None)
                    else parse_elements r))"

subsection \<open>The operations\<close>

text \<open>
  Every method that writes returns the raised exception or \<open>()\<close>, and the state of the
  tables afterwards. \<^verbatim>\<open>connection.commit()\<close> makes the statement's change durable; with
  the single connection of the singleton it does not change what later statements see,
  so it does not appear in the model. A statement that raises changes no row (SQLite
  aborts the statement), and the method leaves through the exception before its commit.
\<close>

text \<open>\<^verbatim>\<open>get_user_id_by_handle\<close>: \<^verbatim>\<open>fetchone()\<close> gives the first matching row or \<^verbatim>\<open>None\<close>.\<close>

definition get_user_id_by_handle :: "string \<Rightarrow> database \<Rightarrow> int option" where
  "get_user_id_by_handle h db =
     (case filter (\<lambda>u. handle u = h) (Users db) of
        [] \<Rightarrow> None
      | u # _ \<Rightarrow> Some (Users_id u))"

text \<open>
  \<^verbatim>\<open>add_user\<close>: the \<^verbatim>\<open>INSERT\<close> violates \<^verbatim>\<open>handle TEXT UNIQUE\<close> when a row with the same
  handle exists (the comparison is bytewise); otherwise the row is appended with a
  fresh id.
\<close>

definition add_user :: "string \<Rightarrow> datetime \<Rightarrow> database \<Rightarrow> (error + unit) \<times> database" where
  "add_user h current_time db =
     (if h \<in> set (map handle (Users db)) then (Inl IntegrityError, db)
      else
        let new_id = autoincrement (map Users_id (Users db)) (Users_seq db)
        in (Inr (),
            db\<lparr>Users := Users db @
                  [\<lparr>Users_id = new_id, handle = h, solved_count = 0,
                    solved_problems = json_dumps [],
                    last_check_time = current_time, last_update_time = current_time\<rparr>],
               Users_seq := new_id\<rparr>))"

definition add_server :: "string \<Rightarrow> database \<Rightarrow> (error + unit) \<times> database" where
  "add_server name db =
     (let new_id = autoincrement (map Servers_id (Servers db)) (Servers_seq db)
      in (Inr (),
          db\<lparr>Servers := Servers db @ [\<lparr>Servers_id = new_id, Servers_name = name\<rparr>],
             Servers_seq := new_id\<rparr>))"

text \<open>
  \<^verbatim>\<open>add_channel\<close>: SQLite does not enforce the \<^verbatim>\<open>FOREIGN KEY\<close> clauses unless
  \<^verbatim>\<open>PRAGMA foreign_keys\<close> is switched on, which the source never does; \<^verbatim>\<open>server_id\<close> is
  stored as given.
\<close>

definition add_channel :: "string \<Rightarrow> int \<Rightarrow> database \<Rightarrow> (error + unit) \<times> database" where
  "add_channel name sid db =
     (if \<not> fits_int64 sid then (Inl OverflowError, db)
      else
        let new_id = autoincrement (map Channels_id (Channels db)) (Channels_seq db)
        in (Inr (),
            db\<lparr>Channels := Channels db @
                  [\<lparr>Channels_id = new_id, Channels_name = name, Channels_server_id = sid\<rparr>],
               Channels_seq := new_id\<rparr>))"

definition map_user_to_channel ::
    "string \<Rightarrow> int \<Rightarrow> int \<Rightarrow> database \<Rightarrow> (error + unit) \<times> database" where
  "map_user_to_channel h cid sid db =
     (case get_user_id_by_handle h db of
        Some uid \<Rightarrow>
          if \<not> (fits_int64 cid \<and> fits_int64 sid) then (Inl OverflowError, db)
          else
            let new_id = autoincrement (map UserChannelMapping_id (UserChannelMapping db))
                           (UserChannelMapping_seq db)
            in (Inr (),
                db\<lparr>UserChannelMapping := UserChannelMapping db @
                      [\<lparr>UserChannelMapping_id = new_id, user_id = uid,
                        channel_id = cid, server_id = sid\<rparr>],
                   UserChannelMapping_seq := new_id\<rparr>)
      | None \<Rightarrow> (Inl ValueError, db))"

text \<open>
  \<^verbatim>\<open>update_user_solved_problems\<close>: the \<^verbatim>\<open>UPDATE\<close> rewrites the three columns in every row
  whose handle matches; the number of rows it matched is not looked at.
\<close>

definition update_user_solved_problems ::
    "string \<Rightarrow> int list \<Rightarrow> datetime \<Rightarrow> database \<Rightarrow> (error + unit) \<times> database" where
  "update_user_solved_problems h ps current_time db =
     (let count = int (length ps)
      in (Inr (),
          db\<lparr>Users :=
               map (\<lambda>u. if handle u = h
                         then u\<lparr>solved_count := count, solved_problems := json_dumps ps,
                                last_update_time := current_time\<rparr>
                         else u)
                 (Users db)\<rparr>))"

text \<open>
  \<^verbatim>\<open>get_user_channels\<close>: the \<^verbatim>\<open>FROM\<close> clause joins from left to right, each
  \<^verbatim>\<open>INNER JOIN ... ON\<close> keeping the pairs of the product that satisfy its condition;
  \<^verbatim>\<open>WHERE\<close> filters the joined rows and \<^verbatim>\<open>SELECT\<close> projects them. SQL leaves the order of
  the result open without \<^verbatim>\<open>ORDER BY\<close>; the model lists the rows in the order of the nested
  loops over the tables as the statement names them. \<^verbatim>\<open>fetchall()\<close> returns all of them.
\<close>

definition inner_join :: "'a list \<Rightarrow> 'b list \<Rightarrow> ('a \<Rightarrow> 'b \<Rightarrow> bool) \<Rightarrow> ('a \<times> 'b) list" where
  "inner_join xs ys on = filter (\<lambda>(x, y). on x y) (List.product xs ys)"

definition get_user_channels :: "string \<Rightarrow> database \<Rightarrow> (int \<times> string \<times> int \<times> string) list" where
  "get_user_channels h db =
     (let j1 = inner_join (UserChannelMapping db) (Users db) (\<lambda>m u. user_id m = Users_id u);
          j2 = inner_join j1 (Channels db) (\<lambda>(m, u) c. channel_id m = Channels_id c);
          j3 = inner_join j2 (Servers db) (\<lambda>((m, u), c) s. server_id m = Servers_id s);
          rows = filter (\<lambda>(((m, u), c), s). handle u = h) j3
      in map (\<lambda>(((m, u), c), s). (Channels_id c, Channels_name c, Servers_id s, Servers_name s))
           rows)"

subsection \<open>Sequences of calls\<close>

datatype call =
    Add_user string datetime
  | Add_server string
  | Add_channel string int
  | Map_user_to_channel string int int
  | Update_user_solved_problems string "int list" datetime
  | Get_user_channels string
  | Get_user_id_by_handle string

datatype return_value =
    Nothing
  | User_id "int option"
  | Channel_list "(int \<times> string \<times> int \<times> string) list"

definition returning :: "(error + unit) \<times> database \<Rightarrow> (error + return_value) \<times> database" where
  "returning r = (case r of (Inl e, db) \<Rightarrow> (Inl e, db) | (Inr _, db) \<Rightarrow> (Inr Nothing, db))"

fun call_method :: "call \<Rightarrow> database \<Rightarrow> (error + return_value) \<times> database" where
  "call_method (Add_user h t) db = returning (add_user h t db)"
| "call_method (Add_server n) db = returning (add_server n db)"
| "call_method (Add_channel n s) db = returning (add_channel n s db)"
| "call_method (Map_user_to_channel h c s) db = returning (map_user_to_channel h c s db)"
| "call_method (Update_user_solved_problems h ps t) db =
     returning (update_user_solved_problems h ps t db)"
| "call_method (Get_user_channels h) db = (Inr (Channel_list (get_user_channels h db)), db)"
| "call_method (Get_user_id_by_handle h) db = (Inr (User_id (get_user_id_by_handle h db)), db)"

text \<open>
  The state after a sequence of calls on the store, starting from the freshly created
  schema. A call that raises leaves its state to the next call.
\<close>

definition run :: "call list \<Rightarrow> database \<Rightarrow> database" where
  "run cs db = fold (\<lambda>c d. snd (call_method c d)) cs db"

subsection \<open>The constructor \<^verbatim>\<open>Database.__new__\<close>\<close>

text \<open>
  The class attributes \<^verbatim>\<open>_instance\<close>, \<^verbatim>\<open>_lock\<close> and \<^verbatim>\<open>_dcl\<close> are shared by all callers.
  An object is named by its allocation number. Three counters record the effects of the
  one-time setup: objects allocated by \<^verbatim>\<open>super().__new__\<close>, calls of \<^verbatim>\<open>sqlite3.connect\<close>
  and executions of \<^verbatim>\<open>_initialize_database\<close>.
\<close>

record class_state =
  cls_instance :: "nat option"
  cls_dcl :: bool
  cls_lock :: bool
  allocated :: nat
  connects :: nat
  bootstraps :: nat

text \<open>
  The control points of one invocation of \<^verbatim>\<open>__new__\<close>, named by the source line. Line 21
  reads two class attributes, one after the other (\<^verbatim>\<open>and\<close> evaluates its right operand
  only when the left one is true). \<open>Unlock\<close> is the exit of the \<^verbatim>\<open>with\<close> block.
\<close>

datatype pc =
    Line21_instance
  | Line21_dcl
  | Line22
  | Line23
  | Line24
  | Line25
  | Line26
  | Line27
  | Line28
  | Unlock
  | Line29
  | Returned "nat option"

text \<open>
  One atomic step of an invocation: at most one read or write of the shared state.
  \<open>None\<close> means the invocation cannot move: it waits for the lock, or it has returned.
  Line 24 allocates the object and stores the reference; the object is known to no other
  invocation before the store. Lines 25 to 27 open the connection, create the cursor and
  run \<^verbatim>\<open>_initialize_database\<close>; opening the file and creating the tables are taken to
  succeed.
\<close>

fun Database_new :: "pc \<Rightarrow> class_state \<Rightarrow> (pc \<times> class_state) option" where
  "Database_new Line21_instance s =
     (if cls_instance s = None then Some (Line21_dcl, s) else Some (Line29, s))"
| "Database_new Line21_dcl s =
     (if \<not> cls_dcl s then Some (Line22, s) else Some (Line29, s))"
| "Database_new Line22 s =
     (if cls_lock s then None else Some (Line23, s\<lparr>cls_lock := True\<rparr>))"
| "Database_new Line23 s =
     (if cls_instance s = None then Some (Line24, s) else Some (Unlock, s))"
| "Database_new Line24 s =
     Some (Line25, s\<lparr>cls_instance := Some (allocated s), allocated := allocated s + 1\<rparr>)"
| "Database_new Line25 s = Some (Line26, s\<lparr>connects := connects s + 1\<rparr>)"
| "Database_new Line26 s = Some (Line27, s)"
| "Database_new Line27 s = Some (Line28, s\<lparr>bootstraps := bootstraps s + 1\<rparr>)"
| "Database_new Line28 s = Some (Unlock, s\<lparr>cls_dcl := True\<rparr>)"
| "Database_new Unlock s = Some (Line29, s\<lparr>cls_lock := False\<rparr>)"
| "Database_new Line29 s = Some (Returned (cls_instance s), s)"
| "Database_new (Returned r) s = None"

text \<open>
  A configuration is the shared state and the control point of every invocation. A
  schedule names, step by step, the invocation that moves next; naming one that cannot
  move leaves the configuration as it is. Invocations made one after the other are the
  schedules that run each invocation to its return before the next one starts.
\<close>

type_synonym config = "class_state \<times> pc list"

definition step :: "nat \<Rightarrow> config \<Rightarrow> config" where
  "step i c =
     (case c of (s, ts) \<Rightarrow>
        if i < length ts then
          (case Database_new (ts ! i) s of
             None \<Rightarrow> (s, ts)
           | Some (p, s') \<Rightarrow> (s', ts[i := p]))
        else (s, ts))"

definition interleave :: "nat list \<Rightarrow> config \<Rightarrow> config" where
  "interleave sched c = fold step sched c"

definition start :: "nat \<Rightarrow> config" where
  "start n =
     (\<lparr>cls_instance = None, cls_dcl = False, cls_lock = False,
       allocated = 0, connects = 0, bootstraps = 0\<rparr>,
      replicate n Line21_instance)"

definition is_returned :: "pc \<Rightarrow> bool" where
  "is_returned p = (case p of Returned _ \<Rightarrow> True | _ \<Rightarrow> False)"

subsection \<open>Auxiliary notions for the statements\<close>

text \<open>The row that \<^verbatim>\<open>UPDATE Users SET ...\<close> writes in place of a matching row.\<close>

definition updated_row :: "int list \<Rightarrow> datetime \<Rightarrow> Users_row \<Rightarrow> Users_row" where
  "updated_row ps t u =
     u\<lparr>solved_count := int (length ps), solved_problems := json_dumps ps, last_update_time := t\<rparr>"

text \<open>A row whose count is the length of the list its text column decodes to.\<close>

definition count_ok :: "Users_row \<Rightarrow> bool" where
  "count_ok u \<longleftrightarrow> (\<exists>ps. json_loads (solved_problems u) = Some ps \<and> solved_count u = int (length ps))"

text \<open>
  The result of \<^verbatim>\<open>get_user_channels\<close> in the words of the specification: the tuples
  (channel id, channel name, server id, server name) of all memberships joined with the
  user, the channel and the server they refer to, for the user with the given handle.
\<close>

definition joined_rows :: "string \<Rightarrow> database \<Rightarrow> (int \<times> string \<times> int \<times> string) list" where
  "joined_rows h db =
     [(Channels_id c, Channels_name c, Servers_id s, Servers_name s).
        m \<leftarrow> UserChannelMapping db, u \<leftarrow> Users db, c \<leftarrow> Channels db, s \<leftarrow> Servers db,
        user_id m = Users_id u \<and> channel_id m = Channels_id c \<and> server_id m = Servers_id s \<and>
        handle u = h]"

subsection \<open>Assertions about the constructor\<close>

text \<open>The control points at which an invocation holds \<^verbatim>\<open>_lock\<close>.\<close>

definition critical :: "pc \<Rightarrow> bool" where
  "critical p \<longleftrightarrow> p \<in> {Line23, Line24, Line25, Line26, Line27, Line28, Unlock}"

text \<open>The shared state before the one-time setup, during it and after it.\<close>

definition uninitialised :: "class_state \<Rightarrow> bool" where
  "uninitialised s \<longleftrightarrow>
     cls_instance s = None \<and> \<not> cls_dcl s \<and> allocated s = 0 \<and> connects s = 0 \<and> bootstraps s = 0"

definition initialised :: "class_state \<Rightarrow> bool" where
  "initialised s \<longleftrightarrow>
     cls_instance s = Some 0 \<and> cls_dcl s \<and> allocated s = 1 \<and> connects s = 1 \<and> bootstraps s = 1"

definition in_setup :: "nat \<Rightarrow> nat \<Rightarrow> class_state \<Rightarrow> bool" where
  "in_setup c b s \<longleftrightarrow>
     cls_instance s = Some 0 \<and> \<not> cls_dcl s \<and> allocated s = 1 \<and> connects s = c \<and> bootstraps s = b"

text \<open>What an invocation at a control point knows about the shared state.\<close>

fun at_pc :: "pc \<Rightarrow> class_state \<Rightarrow> bool" where
  "at_pc Line21_instance s = True"
| "at_pc Line21_dcl s = True"
| "at_pc Line22 s = True"
| "at_pc Line23 s = (uninitialised s \<or> initialised s)"
| "at_pc Line24 s = uninitialised s"
| "at_pc Line25 s = in_setup 0 0 s"
| "at_pc Line26 s = in_setup 1 0 s"
| "at_pc Line27 s = in_setup 1 0 s"
| "at_pc Line28 s = in_setup 1 1 s"
| "at_pc Unlock s = initialised s"
| "at_pc Line29 s = (cls_instance s = Some 0)"
| "at_pc (Returned r) s = (r = Some 0 \<and> cls_instance s = Some 0)"

text \<open>What holds of the shared state whatever the invocations are doing.\<close>

definition global_ok :: "class_state \<Rightarrow> bool" where
  "global_ok s \<longleftrightarrow>
     (\<not> cls_lock s \<longrightarrow> uninitialised s \<or> initialised s) \<and>
     (cls_instance s = None \<or> cls_instance s = Some 0) \<and>
     (cls_dcl s \<longrightarrow> cls_instance s = Some 0) \<and>
     allocated s \<le> 1 \<and> connects s \<le> 1 \<and> bootstraps s \<le> 1"

definition invariant :: "config \<Rightarrow> bool" where
  "invariant c =
     (case c of (s, ts) \<Rightarrow>
        global_ok s \<and>
        (\<forall>i < length ts. at_pc (ts ! i) s) \<and>
        (\<forall>i < length ts. \<forall>j < length ts. critical (ts ! i) \<and> critical (ts ! j) \<longrightarrow> i = j) \<and>
        (cls_lock s \<longleftrightarrow> (\<exists>i < length ts. critical (ts ! i))))"

text \<open>A bound on the steps an invocation still takes before it has returned.\<close>

fun remaining :: "pc \<Rightarrow> nat" where
  "remaining Line21_instance = 11"
| "remaining Line21_dcl = 10"
| "remaining Line22 = 9"
| "remaining Line23 = 8"
| "remaining Line24 = 7"
| "remaining Line25 = 6"
| "remaining Line26 = 5"
| "remaining Line27 = 4"
| "remaining Line28 = 3"
| "remaining Unlock = 2"
| "remaining Line29 = 1"
| "remaining (Returned r) = 0"

definition work :: "config \<Rightarrow> nat" where
  "work c = sum_list (map remaining (snd c))"

section \<open>Properties of the serialisation\<close>

lemma is_digit_digit_char: "d < 10 \<Longrightarrow> is_digit (digit_char d)"
  by (simp add: is_digit_def digit_char_def)

lemma digit_val_digit_char: "d < 10 \<Longrightarrow> digit_val (digit_char d) = d"
  by (simp add: digit_val_def digit_char_def)

lemma digit_char_eq_zero: "d < 10 \<Longrightarrow> digit_char d = CHR ''0'' \<longleftrightarrow> d = 0"
proof -
  assume d: "d < 10"
  have "digit_char d = CHR ''0'' \<Longrightarrow> d = 0"
  proof -
    assume "digit_char d = CHR ''0''"
    then have "digit_val (digit_char d) = digit_val (CHR ''0'')" by simp
    then show "d = 0" using d by (simp add: digit_val_digit_char) (simp add: digit_val_def)
  qed
  moreover have "digit_char 0 = CHR ''0''"
  proof -
    have "(of_char (digit_char 0) :: nat) = of_char (CHR ''0'')"
      by (simp add: digit_char_def)
    then show ?thesis by (simp only: of_char_eq_iff)
  qed
  ultimately show ?thesis by auto
qed

lemma not_digit_literals:
  "\<not> is_digit (CHR ''-'')" "\<not> is_digit (CHR '','')" "\<not> is_digit (CHR '']'')"
  "\<not> is_digit (CHR '' '')" "\<not> is_digit (CHR ''['')"
  by (simp_all add: is_digit_def)

lemma digit_not_ws: "is_digit c \<Longrightarrow> \<not> is_ws c"
  by (auto simp: is_digit_def is_ws_def)

lemma str_nat_digits: "c \<in> set (str_nat n) \<Longrightarrow> is_digit c"
proof (induction n arbitrary: c rule: str_nat.induct)
  case (1 n)
  show ?case
  proof (cases "n < 10")
    case True
    with "1.prems" show ?thesis by (simp add: str_nat.simps [of n] is_digit_digit_char)
  next
    case False
    with "1.prems" "1.IH" show ?thesis
      by (auto simp: str_nat.simps [of n] is_digit_digit_char)
  qed
qed

lemma str_nat_not_Nil: "str_nat n \<noteq> []"
  by (subst str_nat.simps) simp

lemma nat_of_digits_snoc: "nat_of_digits (ds @ [c]) = 10 * nat_of_digits ds + digit_val c"
  by (simp add: nat_of_digits_def)

lemma nat_of_digits_str_nat: "nat_of_digits (str_nat n) = n"
proof (induction n rule: str_nat.induct)
  case (1 n)
  show ?case
  proof (cases "n < 10")
    case True
    then show ?thesis
      by (simp add: str_nat.simps [of n] nat_of_digits_def digit_val_digit_char)
  next
    case False
    with "1.IH" show ?thesis
      by (simp add: str_nat.simps [of n] nat_of_digits_snoc digit_val_digit_char)
  qed
qed

lemma str_nat_leading_zero: "hd (str_nat n) = CHR ''0'' \<Longrightarrow> length (str_nat n) = 1"
proof (induction n rule: str_nat.induct)
  case (1 n)
  show ?case
  proof (cases "n < 10")
    case True
    then show ?thesis by (simp add: str_nat.simps [of n])
  next
    case False
    then have eq: "str_nat n = str_nat (n div 10) @ [digit_char (n mod 10)]"
      by (simp add: str_nat.simps [of n])
    with "1.prems" have "hd (str_nat (n div 10)) = CHR ''0''"
      by (simp add: str_nat_not_Nil)
    with "1.IH" False have len: "length (str_nat (n div 10)) = 1" by simp
    have "n div 10 < 10"
    proof (rule ccontr)
      assume "\<not> n div 10 < 10"
      then have "length (str_nat (n div 10)) \<ge> 2"
        by (subst str_nat.simps) (simp add: Suc_le_eq str_nat_not_Nil)
      with len show False by simp
    qed
    then have "str_nat (n div 10) = [digit_char (n div 10)]"
      by (simp add: str_nat.simps [of "n div 10"])
    with \<open>hd (str_nat (n div 10)) = CHR ''0''\<close> \<open>n div 10 < 10\<close> have "n div 10 = 0"
      by (simp add: digit_char_eq_zero)
    with False show ?thesis by simp
  qed
qed

lemma parse_nat_str_nat:
  assumes "r = [] \<or> \<not> is_digit (hd r)"
  shows "parse_nat (str_nat n @ r) = Some (n, r)"
proof -
  have dr: "dropWhile is_digit r = r" "takeWhile is_digit r = []"
    using assms by (cases r; simp)+
  have tk: "takeWhile is_digit (str_nat n @ r) = str_nat n"
    by (simp add: takeWhile_append2 str_nat_digits dr)
  have dk: "dropWhile is_digit (str_nat n @ r) = r"
    by (simp add: dropWhile_append2 str_nat_digits dr)
  show ?thesis
    using str_nat_leading_zero [of n]
    by (auto simp: parse_nat_def Let_def tk dk str_nat_not_Nil nat_of_digits_str_nat)
qed

lemma hd_str_nat_digit: "is_digit (hd (str_nat n))"
  using str_nat_digits [of "hd (str_nat n)" n] str_nat_not_Nil [of n] by simp

lemma parse_int_str_int:
  assumes "r = [] \<or> \<not> is_digit (hd r)"
  shows "parse_int (str_int i @ r) = Some (i, r)"
proof (cases "i < 0")
  case True
  then show ?thesis
    by (simp add: str_int_def parse_int_def parse_nat_str_nat [OF assms])
next
  case False
  obtain c cs where eq: "str_nat (nat i) = c # cs"
    using str_nat_not_Nil [of "nat i"] by (cases "str_nat (nat i)") auto
  have "is_digit c" using hd_str_nat_digit [of "nat i"] eq by simp
  then have "c \<noteq> CHR ''-''" using not_digit_literals by auto
  moreover have "parse_nat (c # cs @ r) = Some (nat i, r)"
    using parse_nat_str_nat [OF assms, of "nat i"] eq by simp
  ultimately show ?thesis using False
    by (simp add: str_int_def parse_int_def eq)
qed

lemma skip_ws_Nil: "skip_ws [] = []"
  by (simp add: skip_ws_def)

lemma skip_ws_keep: "\<not> is_ws c \<Longrightarrow> skip_ws (c # s) = c # s"
  by (simp add: skip_ws_def)

lemma skip_ws_drop: "is_ws c \<Longrightarrow> skip_ws (c # s) = skip_ws s"
  by (simp add: skip_ws_def)

lemma ws_literals:
  "is_ws (CHR '' '')" "\<not> is_ws (CHR '','')" "\<not> is_ws (CHR '']'')" "\<not> is_ws (CHR ''['')"
  "\<not> is_ws (CHR ''-'')"
  by (simp_all add: is_ws_def)

lemma str_int_Cons:
  obtains c cs where "str_int i = c # cs" "\<not> is_ws c" "c \<noteq> CHR '']''"
proof (cases "i < 0")
  case True
  then have "str_int i = CHR ''-'' # str_nat (nat (- i))" by (simp add: str_int_def)
  then show ?thesis using that ws_literals by simp
next
  case False
  then have eq: "str_int i = str_nat (nat i)" by (simp add: str_int_def)
  obtain c cs where c: "str_nat (nat i) = c # cs"
    using str_nat_not_Nil [of "nat i"] by (cases "str_nat (nat i)") auto
  then have "is_digit c" using hd_str_nat_digit [of "nat i"] by simp
  then have "\<not> is_ws c" "c \<noteq> CHR '']''"
    using digit_not_ws not_digit_literals by auto
  with eq c show ?thesis using that by simp
qed

lemma skip_ws_str_int: "skip_ws (str_int i @ r) = str_int i @ r"
proof -
  obtain c cs where "str_int i = c # cs" "\<not> is_ws c"
    by (rule str_int_Cons)
  then show ?thesis by (simp add: skip_ws_keep)
qed

lemma parse_elements_join:
  "parse_elements (join_items (map str_int (x # xs)) @ '']'') = Some (x # xs)"
proof (induction xs arbitrary: x)
  case Nil
  show ?case
    by (subst parse_elements.simps)
       (simp add: skip_ws_str_int parse_int_str_int not_digit_literals skip_ws_keep
          ws_literals skip_ws_Nil)
next
  case (Cons y ys)
  have "parse_elements (str_int x @ '', '' @ join_items (map str_int (y # ys)) @ '']'')
        = map_option (Cons x) (parse_elements ('' '' @ join_items (map str_int (y # ys)) @ '']''))"
    by (subst parse_elements.simps)
       (simp add: skip_ws_str_int parse_int_str_int not_digit_literals skip_ws_keep ws_literals)
  also have "parse_elements ('' '' @ join_items (map str_int (y # ys)) @ '']'')
        = parse_elements (join_items (map str_int (y # ys)) @ '']'')"
    by (subst parse_elements.simps, subst (2) parse_elements.simps)
       (simp add: skip_ws_drop ws_literals)
  finally show ?case using Cons.IH [of y] by simp
qed

lemma json_loads_json_dumps: "json_loads (json_dumps xs) = Some xs"
proof (cases xs)
  case Nil
  then show ?thesis
    by (simp add: json_loads_def json_dumps_def skip_ws_keep ws_literals skip_ws_Nil)
next
  case (Cons x ys)
  obtain c cs where eq: "str_int x = c # cs" "\<not> is_ws c" "c \<noteq> CHR '']''"
    by (rule str_int_Cons)
  define body where "body = join_items (map str_int (x # ys)) @ '']''"
  have "\<exists>t. body = c # t"
    unfolding body_def using eq by (cases ys) simp_all
  then obtain t where t: "body = c # t" by blast
  have "json_loads (CHR ''['' # body) = parse_elements body"
    by (simp add: json_loads_def skip_ws_keep ws_literals t eq)
  moreover have "json_dumps xs = CHR ''['' # body"
    by (simp add: json_dumps_def body_def Cons)
  moreover have "parse_elements body = Some (x # ys)"
    unfolding body_def by (rule parse_elements_join)
  ultimately show ?thesis using Cons by simp
qed

section \<open>Properties of the operations\<close>

lemma returning_snd: "snd (returning r) = snd r"
  by (cases r; cases "fst r") (auto simp: returning_def split: sum.splits)

lemma get_user_id_by_handle_None:
  "get_user_id_by_handle h db = None \<longleftrightarrow> h \<notin> handle ` set (Users db)"
proof -
  have "filter (\<lambda>u. handle u = h) (Users db) = [] \<longleftrightarrow> h \<notin> handle ` set (Users db)"
    by (auto simp: filter_empty_conv)
  then show ?thesis
    by (cases "filter (\<lambda>u. handle u = h) (Users db)")
       (simp_all add: get_user_id_by_handle_def)
qed


text \<open>What each call does to the table of users.\<close>

lemma Users_call_method:
  "Users (snd (call_method c db)) = Users db \<or>
   (\<exists>h t. c = Add_user h t \<and> h \<notin> handle ` set (Users db) \<and>
      (\<exists>i. Users (snd (call_method c db)) =
         Users db @ [\<lparr>Users_id = i, handle = h, solved_count = 0,
                      solved_problems = json_dumps [], last_check_time = t,
                      last_update_time = t\<rparr>])) \<or>
   (\<exists>h ps t. c = Update_user_solved_problems h ps t \<and>
      Users (snd (call_method c db)) =
        map (\<lambda>u. if handle u = h then updated_row ps t u else u) (Users db))"
  by (cases c)
     (auto simp: returning_snd add_user_def add_server_def add_channel_def
        map_user_to_channel_def update_user_solved_problems_def Let_def updated_row_def
        split: option.splits)

lemma run_Nil: "run [] db = db"
  by (simp add: run_def)

lemma run_Cons: "run (c # cs) db = run cs (snd (call_method c db))"
  by (simp add: run_def)

lemma run_snoc: "run (cs @ [c]) db = snd (call_method c (run cs db))"
  by (simp add: run_def)

lemma count_ok_call_method:
  assumes "list_all count_ok (Users db)"
  shows "list_all count_ok (Users (snd (call_method c db)))"
proof -
  have new: "count_ok \<lparr>Users_id = i, handle = h, solved_count = 0,
      solved_problems = json_dumps [], last_check_time = t, last_update_time = t\<rparr>" for i h t
    by (simp add: count_ok_def json_loads_json_dumps)
  have upd: "count_ok (updated_row ps t u)" for ps t u
    by (simp add: count_ok_def updated_row_def json_loads_json_dumps)
  show ?thesis
    using Users_call_method [of c db] assms
    by (auto simp: new upd list_all_iff)
qed

lemma count_ok_run:
  "list_all count_ok (Users db) \<Longrightarrow> list_all count_ok (Users (run cs db))"
  by (induction cs arbitrary: db) (simp_all add: run_Nil run_Cons count_ok_call_method)

lemma Users_initialize_database: "Users initialize_database = []"
  by (simp add: initialize_database_def)

text \<open>
  Claim C2. In every state reached from the fresh schema by any sequence of calls of the
  store's methods, every row of \<^verbatim>\<open>Users\<close> has a \<^verbatim>\<open>solved_problems\<close> text that decodes to
  a list, and its \<^verbatim>\<open>solved_count\<close> is the length of that list.
\<close>

theorem solved_count_is_length:
  "\<forall>u \<in> set (Users (run cs initialize_database)).
     \<exists>ps. json_loads (solved_problems u) = Some ps \<and> solved_count u = int (length ps)"
proof -
  have "list_all count_ok (Users (run cs initialize_database))"
    by (rule count_ok_run) (simp add: Users_initialize_database)
  then show ?thesis by (simp add: list_all_iff count_ok_def)
qed

theorem solved_count_is_length_witness:
  "Users (run [Add_user ''bob'' 1, Update_user_solved_problems ''bob'' [1, 2, 3] 2]
      initialize_database) =
     [\<lparr>Users_id = 1, handle = ''bob'', solved_count = 3, solved_problems = ''[1, 2, 3]'',
       last_check_time = 1, last_update_time = 2\<rparr>] \<and>
   (\<exists>ps. json_loads ''[1, 2, 3]'' = Some ps \<and> (3::int) = int (length ps))"
proof -
  let ?cs = "[Add_user ''bob'' 1, Update_user_solved_problems ''bob'' [1, 2, 3] 2]"
  have eq: "Users (run ?cs initialize_database) =
     [\<lparr>Users_id = 1, handle = ''bob'', solved_count = 3, solved_problems = ''[1, 2, 3]'',
       last_check_time = 1, last_update_time = 2\<rparr>]"
    by code_simp
  show ?thesis
    using solved_count_is_length [of ?cs] unfolding eq by simp
qed

lemma distinct_handles_call_method:
  assumes "distinct (map handle (Users db))"
  shows "distinct (map handle (Users (snd (call_method c db))))"
proof -
  have "map handle (map (\<lambda>u. if handle u = h then updated_row ps t u else u) us) = map handle us"
    for h ps t us
    by (induction us) (simp_all add: updated_row_def)
  then have "distinct (map handle (map (\<lambda>u. if handle u = h then updated_row ps t u else u)
      (Users db)))" for h ps t
    using assms by (simp only:)
  then show ?thesis
    using Users_call_method [of c db] assms by (elim disjE exE conjE) auto
qed

lemma distinct_handles_run:
  "distinct (map handle (Users db)) \<Longrightarrow> distinct (map handle (Users (run cs db)))"
  by (induction cs arbitrary: db) (simp_all add: run_Nil run_Cons distinct_handles_call_method)

lemma distinct_key_filter:
  "distinct (map f xs) \<Longrightarrow> y \<in> f ` set xs \<Longrightarrow> length (filter (\<lambda>x. f x = y) xs) = 1"
proof (induction xs)
  case Nil
  then show ?case by simp
next
  case (Cons x xs)
  show ?case
  proof (cases "f x = y")
    case True
    with Cons.prems have "y \<notin> f ` set xs" by auto
    then have "filter (\<lambda>x. f x = y) xs = []" by (auto simp: filter_empty_conv)
    with True show ?thesis by simp
  next
    case False
    with Cons show ?thesis by auto
  qed
qed

text \<open>
  Claim C3. In a state reached from the fresh schema, \<^verbatim>\<open>add_user(h)\<close> for a handle that a
  row already carries raises the constraint violation and returns the state it was
  given; exactly one row with that handle exists afterwards.
\<close>

theorem add_user_duplicate_handle:
  assumes "h \<in> handle ` set (Users (run cs initialize_database))"
  shows "add_user h t (run cs initialize_database) = (Inl IntegrityError, run cs initialize_database)
       \<and> length (filter (\<lambda>u. handle u = h) (Users (snd (add_user h t (run cs initialize_database))))) = 1"
proof -
  let ?db = "run cs initialize_database"
  have fail: "add_user h t ?db = (Inl IntegrityError, ?db)"
    using assms by (simp add: add_user_def)
  have "distinct (map handle (Users ?db))"
    by (rule distinct_handles_run) (simp add: Users_initialize_database)
  then have "length (filter (\<lambda>u. handle u = h) (Users ?db)) = 1"
    using assms by (rule distinct_key_filter)
  with fail show ?thesis by simp
qed

theorem add_user_duplicate_handle_witness:
  "''alice'' \<in> handle ` set (Users (run [Add_user ''alice'' 1] initialize_database)) \<and>
   add_user ''alice'' 2 (run [Add_user ''alice'' 1] initialize_database) =
     (Inl IntegrityError, run [Add_user ''alice'' 1] initialize_database) \<and>
   length (filter (\<lambda>u. handle u = ''alice'')
     (Users (snd (add_user ''alice'' 2 (run [Add_user ''alice'' 1] initialize_database))))) = 1"
proof -
  have h: "''alice'' \<in> handle ` set (Users (run [Add_user ''alice'' 1] initialize_database))"
    by code_simp
  show ?thesis
    using h add_user_duplicate_handle [OF h, of 2] by blast
qed

lemma handle_updated_rows:
  "map handle (map (\<lambda>u. if handle u = h then updated_row ps t u else u) us) = map handle us"
  by (induction us) (simp_all add: updated_row_def)



text \<open>
  Claim C5. \<^verbatim>\<open>map_user_to_channel(h, c, s)\<close> raises its \<^verbatim>\<open>ValueError\<close> exactly when no row
  of \<^verbatim>\<open>Users\<close> carries the handle, and then it returns the state it was given.
\<close>

theorem map_user_to_channel_not_found:
  "(fst (map_user_to_channel h c s db) = Inl ValueError \<longleftrightarrow> h \<notin> handle ` set (Users db)) \<and>
   (h \<notin> handle ` set (Users db) \<longrightarrow> snd (map_user_to_channel h c s db) = db)"
proof -
  have "get_user_id_by_handle h db = None \<longleftrightarrow> h \<notin> handle ` set (Users db)"
    by (rule get_user_id_by_handle_None)
  then show ?thesis
    by (cases "get_user_id_by_handle h db")
       (auto simp: map_user_to_channel_def Let_def)
qed

theorem map_user_to_channel_not_found_witness:
  "''nobody'' \<notin> handle ` set (Users (run [Add_user ''carol'' 1] initialize_database)) \<and>
   map_user_to_channel ''nobody'' 1 1 (run [Add_user ''carol'' 1] initialize_database) =
     (Inl ValueError, run [Add_user ''carol'' 1] initialize_database) \<and>
   fst (map_user_to_channel ''carol'' 1 1 (run [Add_user ''carol'' 1] initialize_database)) \<noteq>
     Inl ValueError"
proof -
  let ?db = "run [Add_user ''carol'' 1] initialize_database"
  have n: "''nobody'' \<notin> handle ` set (Users ?db)"
    by code_simp
  have c: "''carol'' \<in> handle ` set (Users ?db)"
    by code_simp
  have "fst (map_user_to_channel ''nobody'' 1 1 ?db) = Inl ValueError"
       "snd (map_user_to_channel ''nobody'' 1 1 ?db) = ?db"
    using map_user_to_channel_not_found [of "''nobody''" 1 1 ?db] n by blast+
  then have "map_user_to_channel ''nobody'' 1 1 ?db = (Inl ValueError, ?db)"
    by (simp add: prod_eq_iff)
  moreover have "fst (map_user_to_channel ''carol'' 1 1 ?db) \<noteq> Inl ValueError"
    using map_user_to_channel_not_found [of "''carol''" 1 1 ?db] c by blast
  ultimately show ?thesis using n by blast
qed



text \<open>
  Claim C8. \<^verbatim>\<open>update_user_solved_problems(h, ps)\<close> leaves the tables \<^verbatim>\<open>Servers\<close>,
  \<^verbatim>\<open>Channels\<close> and \<^verbatim>\<open>UserChannelMapping\<close> and the rowid counters as they are and keeps
  the number and order of the rows of \<^verbatim>\<open>Users\<close>. A row whose handle is not \<open>h\<close> is
  unchanged; a row whose handle is \<open>h\<close> differs from the old one at most in
  \<^verbatim>\<open>solved_count\<close>, \<^verbatim>\<open>solved_problems\<close> and \<^verbatim>\<open>last_update_time\<close>, so its \<^verbatim>\<open>id\<close>, \<^verbatim>\<open>handle\<close>
  and \<^verbatim>\<open>last_check_time\<close> are the old ones.
\<close>

theorem update_frame:
  "Servers (snd (update_user_solved_problems h ps t db)) = Servers db \<and>
   Channels (snd (update_user_solved_problems h ps t db)) = Channels db \<and>
   UserChannelMapping (snd (update_user_solved_problems h ps t db)) = UserChannelMapping db \<and>
   Users_seq (snd (update_user_solved_problems h ps t db)) = Users_seq db \<and>
   Servers_seq (snd (update_user_solved_problems h ps t db)) = Servers_seq db \<and>
   Channels_seq (snd (update_user_solved_problems h ps t db)) = Channels_seq db \<and>
   UserChannelMapping_seq (snd (update_user_solved_problems h ps t db)) =
     UserChannelMapping_seq db \<and>
   length (Users (snd (update_user_solved_problems h ps t db))) = length (Users db) \<and>
   (\<forall>i < length (Users db).
      (handle (Users db ! i) \<noteq> h \<longrightarrow>
         Users (snd (update_user_solved_problems h ps t db)) ! i = Users db ! i) \<and>
      (handle (Users db ! i) = h \<longrightarrow>
         Users (snd (update_user_solved_problems h ps t db)) ! i =
           (Users db ! i)\<lparr>solved_count := int (length ps), solved_problems := json_dumps ps,
                           last_update_time := t\<rparr>) \<and>
      Users_id (Users (snd (update_user_solved_problems h ps t db)) ! i) =
        Users_id (Users db ! i) \<and>
      handle (Users (snd (update_user_solved_problems h ps t db)) ! i) =
        handle (Users db ! i) \<and>
      last_check_time (Users (snd (update_user_solved_problems h ps t db)) ! i) =
        last_check_time (Users db ! i))"
  by (simp add: update_user_solved_problems_def)

theorem update_frame_witness:
  "snd (update_user_solved_problems ''bob'' [7, 7] 9
      (run [Add_user ''ann'' 1, Add_user ''bob'' 2, Add_server ''S'', Add_channel ''C'' 1,
            Map_user_to_channel ''ann'' 1 1] initialize_database)) =
   \<lparr>Users =
      [\<lparr>Users_id = 1, handle = ''ann'', solved_count = 0, solved_problems = ''[]'',
        last_check_time = 1, last_update_time = 1\<rparr>,
       \<lparr>Users_id = 2, handle = ''bob'', solved_count = 2, solved_problems = ''[7, 7]'',
        last_check_time = 2, last_update_time = 9\<rparr>],
    Servers = [\<lparr>Servers_id = 1, Servers_name = ''S''\<rparr>],
    Channels = [\<lparr>Channels_id = 1, Channels_name = ''C'', Channels_server_id = 1\<rparr>],
    UserChannelMapping =
      [\<lparr>UserChannelMapping_id = 1, user_id = 1, channel_id = 1, server_id = 1\<rparr>],
    Users_seq = 2, Servers_seq = 1, Channels_seq = 1, UserChannelMapping_seq = 1\<rparr>"
proof -
  let ?db = "run [Add_user ''ann'' 1, Add_user ''bob'' 2, Add_server ''S'', Add_channel ''C'' 1,
            Map_user_to_channel ''ann'' 1 1] initialize_database"
  let ?db' = "snd (update_user_solved_problems ''bob'' [7, 7] 9 ?db)"
  have db: "?db = \<lparr>Users =
      [\<lparr>Users_id = 1, handle = ''ann'', solved_count = 0, solved_problems = ''[]'',
        last_check_time = 1, last_update_time = 1\<rparr>,
       \<lparr>Users_id = 2, handle = ''bob'', solved_count = 0, solved_problems = ''[]'',
        last_check_time = 2, last_update_time = 2\<rparr>],
    Servers = [\<lparr>Servers_id = 1, Servers_name = ''S''\<rparr>],
    Channels = [\<lparr>Channels_id = 1, Channels_name = ''C'', Channels_server_id = 1\<rparr>],
    UserChannelMapping =
      [\<lparr>UserChannelMapping_id = 1, user_id = 1, channel_id = 1, server_id = 1\<rparr>],
    Users_seq = 2, Servers_seq = 1, Channels_seq = 1, UserChannelMapping_seq = 1\<rparr>"
    by code_simp
  have dumps: "json_dumps [7, 7] = ''[7, 7]''"
    by code_simp
  note frame = update_frame [of "''bob''" "[7, 7]" 9 ?db]
  have u0: "Users ?db' ! 0 = Users ?db ! 0"
    using frame unfolding db by simp
  have u1: "Users ?db' ! 1 = (Users ?db ! 1)\<lparr>solved_count := 2, solved_problems := json_dumps [7, 7],
                           last_update_time := 9\<rparr>"
    using frame unfolding db by simp
  have len: "length (Users ?db') = 2"
    using frame unfolding db by simp
  have users: "Users ?db' = [Users ?db' ! 0, Users ?db' ! 1]"
    using len by (cases "Users ?db'"; cases "tl (Users ?db')") auto
  have rest: "Servers ?db' = Servers ?db" "Channels ?db' = Channels ?db"
    "UserChannelMapping ?db' = UserChannelMapping ?db" "Users_seq ?db' = Users_seq ?db"
    "Servers_seq ?db' = Servers_seq ?db" "Channels_seq ?db' = Channels_seq ?db"
    "UserChannelMapping_seq ?db' = UserChannelMapping_seq ?db"
    using frame by blast+
  have "?db' = \<lparr>Users = [Users ?db' ! 0, Users ?db' ! 1], Servers = Servers ?db',
     Channels = Channels ?db', UserChannelMapping = UserChannelMapping ?db',
     Users_seq = Users_seq ?db', Servers_seq = Servers_seq ?db', Channels_seq = Channels_seq ?db',
     UserChannelMapping_seq = UserChannelMapping_seq ?db'\<rparr>"
    using users by (cases ?db') simp
  then show ?thesis
    unfolding u0 u1 rest dumps unfolding db by simp
qed

text \<open>
  Claim C9, as the code has it. \<^verbatim>\<open>add_user\<close> stores the handle it is given, and the schema
  (\<^verbatim>\<open>TEXT UNIQUE NOT NULL\<close>) accepts the empty string.
\<close>

theorem empty_handle_counterexample:
  "Users (run [Add_user [] 1] initialize_database) =
     [\<lparr>Users_id = 1, handle = [], solved_count = 0, solved_problems = ''[]'',
       last_check_time = 1, last_update_time = 1\<rparr>]"
  by code_simp

lemma handles_call_method:
  "handle ` set (Users (snd (call_method c db))) \<subseteq>
     handle ` set (Users db) \<union> (case c of Add_user h t \<Rightarrow> {h} | _ \<Rightarrow> {})"
proof -
  have "set (map handle (map (\<lambda>u. if handle u = h then updated_row ps t u else u) (Users db))) =
      set (map handle (Users db))" for h ps t
    by (simp only: handle_updated_rows)
  then have "handle ` set (map (\<lambda>u. if handle u = h then updated_row ps t u else u) (Users db)) =
      handle ` set (Users db)" for h ps t
    by (simp only: set_map)
  then show ?thesis
    using Users_call_method [of c db] by (elim disjE exE conjE) auto
qed

text \<open>
  Claim C9, amended. In the state reached from the fresh schema by a sequence of calls in
  which every \<^verbatim>\<open>add_user\<close> was given a non-empty handle, every row of \<^verbatim>\<open>Users\<close> has a
  non-empty handle.
\<close>

theorem handles_non_empty:
  assumes "\<forall>c \<in> set cs. \<forall>h t. c = Add_user h t \<longrightarrow> h \<noteq> []"
  shows "\<forall>u \<in> set (Users (run cs initialize_database)). handle u \<noteq> []"
proof -
  have "[] \<notin> handle ` set (Users db) \<Longrightarrow> [] \<notin> handle ` set (Users (run cs db))" for db
    using assms
  proof (induction cs arbitrary: db)
    case Nil
    then show ?case by (simp add: run_Nil)
  next
    case (Cons c cs)
    have "[] \<notin> handle ` set (Users (snd (call_method c db)))"
      using handles_call_method [of c db] Cons.prems by (cases c) auto
    then show ?case
      using Cons by (simp add: run_Cons)
  qed
  then have "[] \<notin> handle ` set (Users (run cs initialize_database))"
    by (simp add: Users_initialize_database)
  then show ?thesis by force
qed

theorem handles_non_empty_witness:
  "Users (run [Add_user ''dave'' 1, Add_server [], Update_user_solved_problems ''dave'' [5] 2]
      initialize_database) =
     [\<lparr>Users_id = 1, handle = ''dave'', solved_count = 1, solved_problems = ''[5]'',
       last_check_time = 1, last_update_time = 2\<rparr>] \<and>
   ''dave'' \<noteq> []"
proof -
  let ?cs = "[Add_user ''dave'' 1, Add_server [], Update_user_solved_problems ''dave'' [5] 2]"
  have pre: "\<forall>c \<in> set ?cs. \<forall>h t. c = Add_user h t \<longrightarrow> h \<noteq> []"
    by simp
  have eq: "Users (run ?cs initialize_database) =
     [\<lparr>Users_id = 1, handle = ''dave'', solved_count = 1, solved_problems = ''[5]'',
       last_check_time = 1, last_update_time = 2\<rparr>]"
    by code_simp
  show ?thesis
    using handles_non_empty [OF pre] unfolding eq by simp
qed

section \<open>Properties of the query\<close>

lemma bind_assoc:
  "concat (map f (concat (map g xs))) = concat (map (\<lambda>x. concat (map f (g x))) xs)"
  by (induction xs) simp_all

lemma filter_pairs_bind:
  "filter (\<lambda>(a, y). on a y) (map (Pair x) ys) =
   concat (map (\<lambda>y. if on x y then [(x, y)] else []) ys)"
  by (induction ys) simp_all

lemma inner_join_bind:
  "inner_join xs ys on =
   concat (map (\<lambda>x. concat (map (\<lambda>y. if on x y then [(x, y)] else []) ys)) xs)"
  by (induction xs) (simp_all add: inner_join_def filter_pairs_bind)

lemma map_filter_bind:
  "map g (filter P zs) = concat (map (\<lambda>z. if P z then [g z] else []) zs)"
  by (induction zs) simp_all

lemma bind_empty: "concat (map (\<lambda>x. []) xs) = []"
  by (induction xs) simp_all

lemma bind_if: "concat (map f (if b then xs else [])) = (if b then concat (map f xs) else [])"
  by simp

lemma if_if: "(if a then (if b then xs else []) else []) = (if a \<and> b then xs else [])"
  by simp

lemma if_bind:
  "(if b then concat (map f xs) else []) = concat (map (\<lambda>x. if b then f x else []) xs)"
  by (simp add: bind_empty)

lemma get_user_channels_joined_rows: "get_user_channels h db = joined_rows h db"
  unfolding get_user_channels_def joined_rows_def Let_def inner_join_bind map_filter_bind
  by (simp add: bind_assoc bind_if if_bind if_if cong: if_cong)


lemma set_joined_rows:
  "set (joined_rows h db) =
     {(Channels_id c, Channels_name c, Servers_id s, Servers_name s) | m u c s.
        m \<in> set (UserChannelMapping db) \<and> u \<in> set (Users db) \<and>
        c \<in> set (Channels db) \<and> s \<in> set (Servers db) \<and>
        user_id m = Users_id u \<and> channel_id m = Channels_id c \<and>
        server_id m = Servers_id s \<and> handle u = h}"
  unfolding joined_rows_def by (auto split: if_splits)

text \<open>
  Claim C7. \<^verbatim>\<open>get_user_channels(h)\<close> returns normally, with the state as it was; its rows
  are the rows of the four-way inner join for the handle, as a list with every
  repetition and as a set. The result is empty when no row of \<^verbatim>\<open>Users\<close> carries the
  handle, and when no membership refers to a user with the handle.
\<close>

theorem get_user_channels_is_join:
  "call_method (Get_user_channels h) db = (Inr (Channel_list (joined_rows h db)), db) \<and>
   get_user_channels h db = joined_rows h db \<and>
   set (get_user_channels h db) =
     {(Channels_id c, Channels_name c, Servers_id s, Servers_name s) | m u c s.
        m \<in> set (UserChannelMapping db) \<and> u \<in> set (Users db) \<and>
        c \<in> set (Channels db) \<and> s \<in> set (Servers db) \<and>
        user_id m = Users_id u \<and> channel_id m = Channels_id c \<and>
        server_id m = Servers_id s \<and> handle u = h} \<and>
   (h \<notin> handle ` set (Users db) \<longrightarrow> get_user_channels h db = []) \<and>
   ((\<forall>m \<in> set (UserChannelMapping db). \<forall>u \<in> set (Users db).
       handle u = h \<longrightarrow> user_id m \<noteq> Users_id u) \<longrightarrow>
    get_user_channels h db = [])"
proof -
  have eq: "get_user_channels h db = joined_rows h db"
    by (rule get_user_channels_joined_rows)
  have rows: "set (get_user_channels h db) =
     {(Channels_id c, Channels_name c, Servers_id s, Servers_name s) | m u c s.
        m \<in> set (UserChannelMapping db) \<and> u \<in> set (Users db) \<and>
        c \<in> set (Channels db) \<and> s \<in> set (Servers db) \<and>
        user_id m = Users_id u \<and> channel_id m = Channels_id c \<and>
        server_id m = Servers_id s \<and> handle u = h}"
    unfolding eq by (rule set_joined_rows)
  have unknown: "get_user_channels h db = []" if "h \<notin> handle ` set (Users db)"
  proof -
    have "set (get_user_channels h db) = {}"
      unfolding rows using that by auto
    then show ?thesis by simp
  qed
  have no_membership: "get_user_channels h db = []"
    if "\<forall>m \<in> set (UserChannelMapping db). \<forall>u \<in> set (Users db).
          handle u = h \<longrightarrow> user_id m \<noteq> Users_id u"
  proof -
    have "set (get_user_channels h db) = {}"
      unfolding rows using that by auto
    then show ?thesis by simp
  qed
  have "call_method (Get_user_channels h) db = (Inr (Channel_list (joined_rows h db)), db)"
    by (simp add: eq)
  with eq rows unknown no_membership show ?thesis by blast
qed

theorem get_user_channels_is_join_witness:
  "''unknown_handle'' \<notin> handle ` set (Users
      (run [Add_server ''S1'', Add_channel ''C1'' 1, Add_user ''carol'' 1,
            Map_user_to_channel ''carol'' 1 1] initialize_database)) \<and>
   get_user_channels ''unknown_handle''
      (run [Add_server ''S1'', Add_channel ''C1'' 1, Add_user ''carol'' 1,
            Map_user_to_channel ''carol'' 1 1] initialize_database) = [] \<and>
   get_user_channels ''carol''
      (run [Add_server ''S1'', Add_channel ''C1'' 1, Add_user ''carol'' 1,
            Map_user_to_channel ''carol'' 1 1] initialize_database) = [(1, ''C1'', 1, ''S1'')]"
proof -
  let ?db = "run [Add_server ''S1'', Add_channel ''C1'' 1, Add_user ''carol'' 1,
            Map_user_to_channel ''carol'' 1 1] initialize_database"
  have n: "''unknown_handle'' \<notin> handle ` set (Users ?db)"
    by code_simp
  have "get_user_channels ''unknown_handle'' ?db = []"
    using get_user_channels_is_join [of "''unknown_handle''" ?db] n by blast
  moreover have "joined_rows ''carol'' ?db = [(1, ''C1'', 1, ''S1'')]"
    by code_simp
  then have "get_user_channels ''carol'' ?db = [(1, ''C1'', 1, ''S1'')]"
    using get_user_channels_is_join [of "''carol''" ?db] by simp
  ultimately show ?thesis using n by blast
qed

lemma bind_all_empty: "(\<And>x. x \<in> set xs \<Longrightarrow> f x = []) \<Longrightarrow> concat (map f xs) = []"
  by (induction xs) simp_all

lemma joined_rows_dangling:
  assumes "channel_id m \<notin> Channels_id ` set (Channels db) \<or>
           server_id m \<notin> Servers_id ` set (Servers db)"
  shows "joined_rows h (db\<lparr>UserChannelMapping := ms1 @ m # ms2\<rparr>) =
         joined_rows h (db\<lparr>UserChannelMapping := ms1 @ ms2\<rparr>)"
proof -
  define row where "row u c s =
      (if user_id m = Users_id u \<and> channel_id m = Channels_id c \<and>
          server_id m = Servers_id s \<and> handle u = h
       then [(Channels_id c, Channels_name c, Servers_id s, Servers_name s)] else [])"
    for u :: Users_row and c :: Channels_row and s :: Servers_row
  have none: "row u c s = []" if "c \<in> set (Channels db)" "s \<in> set (Servers db)" for u c s
    using assms that by (auto simp: row_def)
  have servers: "concat (map (row u c) (Servers db)) = []" if "c \<in> set (Channels db)" for u c
    by (rule bind_all_empty) (rule none [OF that])
  have channels: "concat (map (\<lambda>c. concat (map (row u c) (Servers db))) (Channels db)) = []"
    for u
    by (rule bind_all_empty) (rule servers)
  have "concat (map (\<lambda>u. concat (map (\<lambda>c. concat (map (row u c) (Servers db)))
      (Channels db))) (Users db)) = []"
    by (rule bind_all_empty) (rule channels)
  then show ?thesis
    by (simp add: joined_rows_def row_def)
qed

text \<open>
  Claim C10. \<^verbatim>\<open>map_user_to_channel\<close> stores the channel and server ids it is given
  without looking them up, so a membership can refer to a channel or a server that has
  no row. \<^verbatim>\<open>get_user_channels\<close> returns the same list with such a membership in the
  table as without it.
\<close>

theorem dangling_membership_omitted:
  "(h \<in> handle ` set (Users db) \<and> fits_int64 c \<and> fits_int64 s \<longrightarrow>
      (\<exists>i uid. map_user_to_channel h c s db =
         (Inr (),
          db\<lparr>UserChannelMapping := UserChannelMapping db @
                [\<lparr>UserChannelMapping_id = i, user_id = uid, channel_id = c, server_id = s\<rparr>],
             UserChannelMapping_seq := i\<rparr>))) \<and>
   (channel_id m \<notin> Channels_id ` set (Channels db) \<or>
    server_id m \<notin> Servers_id ` set (Servers db) \<longrightarrow>
      get_user_channels h' (db\<lparr>UserChannelMapping := ms1 @ m # ms2\<rparr>) =
      get_user_channels h' (db\<lparr>UserChannelMapping := ms1 @ ms2\<rparr>))"
proof -
  have insertable: "\<exists>i uid. map_user_to_channel h c s db =
         (Inr (),
          db\<lparr>UserChannelMapping := UserChannelMapping db @
                [\<lparr>UserChannelMapping_id = i, user_id = uid, channel_id = c, server_id = s\<rparr>],
             UserChannelMapping_seq := i\<rparr>)"
    if "h \<in> handle ` set (Users db)" "fits_int64 c" "fits_int64 s"
  proof -
    from that(1) obtain uid where "get_user_id_by_handle h db = Some uid"
      using get_user_id_by_handle_None [of h db] by (cases "get_user_id_by_handle h db") auto
    with that(2,3) have "map_user_to_channel h c s db =
         (Inr (),
          db\<lparr>UserChannelMapping := UserChannelMapping db @
                [\<lparr>UserChannelMapping_id =
                    autoincrement (map UserChannelMapping_id (UserChannelMapping db))
                      (UserChannelMapping_seq db),
                  user_id = uid, channel_id = c, server_id = s\<rparr>],
             UserChannelMapping_seq :=
               autoincrement (map UserChannelMapping_id (UserChannelMapping db))
                 (UserChannelMapping_seq db)\<rparr>)"
      by (simp add: map_user_to_channel_def Let_def)
    then show ?thesis by blast
  qed
  have omitted: "get_user_channels h' (db\<lparr>UserChannelMapping := ms1 @ m # ms2\<rparr>) =
      get_user_channels h' (db\<lparr>UserChannelMapping := ms1 @ ms2\<rparr>)"
    if "channel_id m \<notin> Channels_id ` set (Channels db) \<or>
        server_id m \<notin> Servers_id ` set (Servers db)"
    unfolding get_user_channels_joined_rows using that by (rule joined_rows_dangling)
  from insertable omitted show ?thesis by blast
qed

theorem dangling_membership_omitted_witness:
  "''u'' \<in> handle ` set (Users (run [Add_user ''u'' 1] initialize_database)) \<and>
   fits_int64 7 \<and> fits_int64 9 \<and>
   map_user_to_channel ''u'' 7 9 (run [Add_user ''u'' 1] initialize_database) =
     (Inr (),
      \<lparr>Users = [\<lparr>Users_id = 1, handle = ''u'', solved_count = 0, solved_problems = ''[]'',
                 last_check_time = 1, last_update_time = 1\<rparr>],
       Servers = [], Channels = [],
       UserChannelMapping =
         [\<lparr>UserChannelMapping_id = 1, user_id = 1, channel_id = 7, server_id = 9\<rparr>],
       Users_seq = 1, Servers_seq = 0, Channels_seq = 0, UserChannelMapping_seq = 1\<rparr>) \<and>
   get_user_channels ''u''
     \<lparr>Users = [\<lparr>Users_id = 1, handle = ''u'', solved_count = 0, solved_problems = ''[]'',
                 last_check_time = 1, last_update_time = 1\<rparr>],
       Servers = [], Channels = [],
       UserChannelMapping =
         [\<lparr>UserChannelMapping_id = 1, user_id = 1, channel_id = 7, server_id = 9\<rparr>],
       Users_seq = 1, Servers_seq = 0, Channels_seq = 0, UserChannelMapping_seq = 1\<rparr> = []"
proof -
  let ?db = "run [Add_user ''u'' 1] initialize_database"
  let ?m = "\<lparr>UserChannelMapping_id = 1, user_id = 1, channel_id = 7, server_id = 9\<rparr>"
  let ?db1 = "\<lparr>Users = [\<lparr>Users_id = 1, handle = ''u'', solved_count = 0,
                 solved_problems = ''[]'', last_check_time = 1, last_update_time = 1\<rparr>],
       Servers = [], Channels = [], UserChannelMapping = [?m],
       Users_seq = 1, Servers_seq = 0, Channels_seq = 0, UserChannelMapping_seq = 1\<rparr>"
  have u: "''u'' \<in> handle ` set (Users ?db)"
    by code_simp
  have f: "fits_int64 7" "fits_int64 9"
    by code_simp+
  have ins: "map_user_to_channel ''u'' 7 9 ?db = (Inr (), ?db1)"
    by code_simp
  have dangling: "channel_id ?m \<notin> Channels_id ` set (Channels ?db1) \<or>
      server_id ?m \<notin> Servers_id ` set (Servers ?db1)"
    by simp
  have "get_user_channels ''u'' (?db1\<lparr>UserChannelMapping := [] @ ?m # []\<rparr>) =
        get_user_channels ''u'' (?db1\<lparr>UserChannelMapping := [] @ []\<rparr>)"
    using dangling_membership_omitted [of _ ?db1 _ _ ?m "''u''" "[]" "[]"] dangling by blast
  moreover have "get_user_channels ''u'' (?db1\<lparr>UserChannelMapping := [] @ []\<rparr>) = []"
    by code_simp
  ultimately have "get_user_channels ''u'' ?db1 = []"
    by simp
  with u f ins show ?thesis by blast
qed

section \<open>Properties of the constructor\<close>

lemma at_pc_lock: "at_pc q (s\<lparr>cls_lock := b\<rparr>) = at_pc q s"
  by (cases q) (simp_all add: uninitialised_def initialised_def in_setup_def)

text \<open>The step of one invocation keeps its own assertion.\<close>

lemma own_step:
  assumes "Database_new p s = Some (p', s')" "at_pc p s" "global_ok s"
  shows "at_pc p' s'"
  using assms
  by (cases p)
     (auto simp: global_ok_def uninitialised_def initialised_def in_setup_def split: if_splits)

text \<open>It keeps the assertion of every other invocation that is not inside the lock with it.\<close>

lemma other_step:
  assumes "Database_new p s = Some (p', s')" "at_pc p s" "at_pc q s"
    "\<not> (critical p \<and> critical q)"
  shows "at_pc q s'"
proof (cases "critical p")
  case False
  then have "s' = s \<or> s' = s\<lparr>cls_lock := True\<rparr>"
    using assms(1) by (cases p) (auto simp: critical_def split: if_splits)
  then show ?thesis using assms(3) by (auto simp: at_pc_lock)
next
  case True
  then have q: "\<not> critical q" using assms(4) by simp
  show ?thesis
    using assms(1-3) q
    by (cases p; cases q)
       (auto simp: critical_def uninitialised_def initialised_def in_setup_def split: if_splits)
qed

lemma global_step:
  assumes "Database_new p s = Some (p', s')" "at_pc p s" "global_ok s"
    "critical p \<longrightarrow> cls_lock s"
  shows "global_ok s'"
  using assms
  by (cases p)
     (auto simp: global_ok_def critical_def uninitialised_def initialised_def in_setup_def
        split: if_splits)

lemma critical_step:
  assumes "Database_new p s = Some (p', s')"
  shows "critical p' \<longleftrightarrow> (critical p \<and> p \<noteq> Unlock) \<or> p = Line22"
  using assms by (cases p) (auto simp: critical_def split: if_splits)

lemma lock_step:
  assumes "Database_new p s = Some (p', s')"
  shows "cls_lock s' = (if p = Line22 then True else if p = Unlock then False else cls_lock s)"
  using assms by (cases p) (auto split: if_splits)

lemma Line22_step: "Database_new Line22 s = Some (p', s') \<Longrightarrow> \<not> cls_lock s"
  by (auto split: if_splits)


lemma invariant_start: "invariant (start n)"
  by (simp add: invariant_def start_def global_ok_def uninitialised_def critical_def)

lemma invariant_step:
  assumes inv: "invariant (s, ts)" and i: "i < length ts"
    and new: "Database_new (ts ! i) s = Some (p', s')"
  shows "invariant (s', ts[i := p'])"
proof -
  let ?p = "ts ! i"
  from inv have g: "global_ok s"
    and a: "\<And>j. j < length ts \<Longrightarrow> at_pc (ts ! j) s"
    and m: "\<And>j k. j < length ts \<Longrightarrow> k < length ts \<Longrightarrow> critical (ts ! j) \<Longrightarrow>
              critical (ts ! k) \<Longrightarrow> j = k"
    and l: "cls_lock s \<longleftrightarrow> (\<exists>j < length ts. critical (ts ! j))"
    by (auto simp: invariant_def)
  have held: "critical ?p \<longrightarrow> cls_lock s"
    using l i by blast
  have free: "\<not> critical (ts ! j)" if "?p = Line22" "j < length ts" for j
  proof -
    from new that(1) have "\<not> cls_lock s" by (simp split: if_splits)
    with l that(2) show ?thesis by blast
  qed
  have alone: "\<not> critical (ts ! j)" if "critical ?p" "j < length ts" "j \<noteq> i" for j
    using m [OF that(2) i] that by blast
  have g': "global_ok s'"
    using new a [OF i] g held by (rule global_step)
  have a': "at_pc (ts[i := p'] ! j) s'" if j: "j < length ts" for j
  proof (cases "j = i")
    case True
    then show ?thesis
      using own_step [OF new a [OF i] g] i by simp
  next
    case False
    then have "\<not> (critical ?p \<and> critical (ts ! j))"
      using alone j by blast
    then have "at_pc (ts ! j) s'"
      using other_step [OF new a [OF i] a [OF j]] by blast
    with False show ?thesis by simp
  qed
  have c': "critical (ts[i := p'] ! j) \<longleftrightarrow>
      (if j = i then (critical ?p \<and> ?p \<noteq> Unlock) \<or> ?p = Line22 else critical (ts ! j))"
    if "j < length ts" for j
    using that critical_step [OF new] by (simp add: nth_list_update)
  have m': "j = k" if "j < length ts" "k < length ts"
    "critical (ts[i := p'] ! j)" "critical (ts[i := p'] ! k)" for j k
  proof (rule ccontr)
    assume ne: "j \<noteq> k"
    have cj: "if j = i then (critical ?p \<and> ?p \<noteq> Unlock) \<or> ?p = Line22 else critical (ts ! j)"
      using c' [OF that(1)] that(3) by simp
    have ck: "if k = i then (critical ?p \<and> ?p \<noteq> Unlock) \<or> ?p = Line22 else critical (ts ! k)"
      using c' [OF that(2)] that(4) by simp
    show False
    proof (cases "j = i")
      case True
      with ne ck have "critical (ts ! k)" by simp
      moreover from True cj have "critical ?p \<or> ?p = Line22" by auto
      ultimately show False
        using free [OF _ that(2)] alone [OF _ that(2)] ne True by blast
    next
      case False
      with cj have cjj: "critical (ts ! j)" by simp
      show False
      proof (cases "k = i")
        case True
        with ck have "critical ?p \<or> ?p = Line22" by auto
        then show False
          using free [OF _ that(1)] alone [OF _ that(1)] False cjj by blast
      next
        case False
        with ck have "critical (ts ! k)" by simp
        with cjj ne m [OF that(1,2)] show False by blast
      qed
    qed
  qed
  have l': "cls_lock s' \<longleftrightarrow> (\<exists>j < length ts. critical (ts[i := p'] ! j))"
  proof (cases "?p = Line22")
    case True
    then have "cls_lock s'" using lock_step [OF new] by simp
    moreover have "critical (ts[i := p'] ! i)" using c' [OF i] True by simp
    ultimately show ?thesis using i by blast
  next
    case n22: False
    show ?thesis
    proof (cases "?p = Unlock")
      case True
      then have "\<not> cls_lock s'" using lock_step [OF new] by simp
      moreover have "\<not> critical (ts[i := p'] ! j)" if "j < length ts" for j
      proof (cases "j = i")
        case True
        with c' [OF that] \<open>?p = Unlock\<close> show ?thesis by simp
      next
        case False
        have "critical ?p" using \<open>?p = Unlock\<close> by (simp add: critical_def)
        from alone [OF this that False] c' [OF that] False show ?thesis by simp
      qed
      ultimately show ?thesis by blast
    next
      case False
      with n22 have same: "cls_lock s' = cls_lock s" using lock_step [OF new] by simp
      have "critical (ts[i := p'] ! j) = critical (ts ! j)" if "j < length ts" for j
        using c' [OF that] False n22 by (cases "j = i") simp_all
      then show ?thesis unfolding same l by auto
    qed
  qed
  show ?thesis
    unfolding invariant_def using g' a' m' l' by simp
qed

lemma invariant_step': "invariant c \<Longrightarrow> invariant (step i c)"
  by (cases c) (auto simp: step_def invariant_step split: option.splits)

lemma invariant_interleave: "invariant c \<Longrightarrow> invariant (interleave sched c)"
  unfolding interleave_def by (induction sched arbitrary: c) (simp_all add: invariant_step')

lemma length_step: "length (snd (step i c)) = length (snd c)"
  by (cases c) (auto simp: step_def split: option.splits)

lemma length_interleave: "length (snd (interleave sched c)) = length (snd c)"
  unfolding interleave_def by (induction sched arbitrary: c) (simp_all add: length_step)

lemma interleave_append: "interleave (a @ b) c = interleave b (interleave a c)"
  by (simp add: interleave_def)


lemma step_moves:
  "i < length ts \<Longrightarrow> Database_new (ts ! i) s = Some (p', s') \<Longrightarrow>
   step i (s, ts) = (s', ts[i := p'])"
  by (simp add: step_def)

lemma remaining_step: "Database_new p s = Some (p', s') \<Longrightarrow> remaining p' < remaining p"
  by (cases p) (auto split: if_splits)

lemma critical_moves: "critical p \<Longrightarrow> \<exists>p' s'. Database_new p s = Some (p', s')"
  by (cases p) (auto simp: critical_def)

lemma outside_moves:
  "\<not> critical p \<Longrightarrow> \<not> is_returned p \<Longrightarrow> \<not> cls_lock s \<Longrightarrow>
   \<exists>p' s'. Database_new p s = Some (p', s')"
  by (cases p) (auto simp: critical_def is_returned_def)

text \<open>No deadlock: while an invocation has not returned, some invocation can move.\<close>

lemma some_invocation_moves:
  assumes "invariant (s, ts)" "\<not> list_all is_returned ts"
  shows "\<exists>i < length ts. \<exists>p' s'. Database_new (ts ! i) s = Some (p', s')"
proof (cases "\<exists>i < length ts. critical (ts ! i)")
  case True
  then show ?thesis using critical_moves by blast
next
  case False
  with assms(1) have unlocked: "\<not> cls_lock s"
    by (auto simp: invariant_def)
  from assms(2) obtain i where i: "i < length ts" "\<not> is_returned (ts ! i)"
    by (auto simp: list_all_length)
  with False have "\<not> critical (ts ! i)" by blast
  from outside_moves [OF this i(2) unlocked] i(1) show ?thesis by blast
qed

lemma work_step:
  assumes "i < length ts" "Database_new (ts ! i) s = Some (p', s')"
  shows "work (s', ts[i := p']) < work (s, ts)"
proof -
  have less: "remaining p' < remaining (ts ! i)"
    using assms(2) by (rule remaining_step)
  have len: "i < length (map remaining ts)"
    using assms(1) by simp
  have "map remaining ts ! i \<in> set (map remaining ts)"
    using len by (rule nth_mem)
  then have "map remaining ts ! i \<le> sum_list (map remaining ts)"
    by (simp add: member_le_sum_list)
  moreover have "sum_list ((map remaining ts)[i := remaining p']) =
      sum_list (map remaining ts) + remaining p' - map remaining ts ! i"
    using len by (rule sum_list_update)
  ultimately show ?thesis
    using less assms(1) by (simp add: work_def map_update)
qed

lemma all_return:
  "invariant c \<Longrightarrow> \<exists>sched. list_all is_returned (snd (interleave sched c))"
proof (induction "work c" arbitrary: c rule: less_induct)
  case less
  obtain s ts where c: "c = (s, ts)" by (cases c)
  show ?case
  proof (cases "list_all is_returned ts")
    case True
    then have "list_all is_returned (snd (interleave [] c))"
      by (simp add: interleave_def c)
    then show ?thesis by blast
  next
    case False
    with less.prems obtain i p' s' where i: "i < length ts"
      and new: "Database_new (ts ! i) s = Some (p', s')"
      using some_invocation_moves unfolding c by blast
    have st: "step i c = (s', ts[i := p'])"
      unfolding c using i new by (rule step_moves)
    have "work (step i c) < work c"
      unfolding st unfolding c using i new by (rule work_step)
    moreover have "invariant (step i c)"
      using less.prems by (rule invariant_step')
    ultimately obtain sched where "list_all is_returned (snd (interleave sched (step i c)))"
      using less.hyps by blast
    then have "list_all is_returned (snd (interleave (i # sched) c))"
      by (simp add: interleave_def)
    then show ?thesis by blast
  qed
qed

lemma invariant_returned:
  assumes "invariant (s, ts)" "i < length ts" "ts ! i = Returned r"
  shows "r = Some 0"
  using assms by (auto simp: invariant_def dest!: spec [of _ i])

lemma invariant_counters:
  assumes "invariant (s, ts)"
  shows "allocated s \<le> 1 \<and> connects s \<le> 1 \<and> bootstraps s \<le> 1"
  using assms by (simp add: invariant_def global_ok_def)

lemma is_returned_Returned: "is_returned p \<Longrightarrow> \<exists>r. p = Returned r"
  by (cases p) (simp_all add: is_returned_def)

lemma is_returned_outside: "is_returned p \<Longrightarrow> \<not> critical p"
  by (cases p) (simp_all add: is_returned_def critical_def)

lemma invariant_finished:
  assumes inv: "invariant (s, ts)" and n: "0 < length ts" and fin: "list_all is_returned ts"
  shows "initialised s"
proof -
  have none: "\<not> critical (ts ! i)" if "i < length ts" for i
    using fin that by (simp add: list_all_length is_returned_outside)
  with inv have "\<not> cls_lock s" by (auto simp: invariant_def)
  with inv have clean: "uninitialised s \<or> initialised s"
    by (simp add: invariant_def global_ok_def)
  from fin n have "is_returned (ts ! 0)"
    by (simp add: list_all_length)
  then obtain r where "ts ! 0 = Returned r"
    using is_returned_Returned by blast
  with inv n have "cls_instance s = Some 0"
    by (auto simp: invariant_def dest!: spec [of _ 0])
  with clean show ?thesis by (auto simp: uninitialised_def)
qed

text \<open>
  Claim C1. Take any number of invocations of \<^verbatim>\<open>Database()\<close> and any schedule of their
  steps, sequential or interleaved. Every invocation that has returned has returned the
  object allocated first; never more than one object is allocated, one connection
  opened and one schema bootstrap run; once all invocations have returned, each of the
  three has happened exactly once; and from every configuration the schedule reaches,
  the invocations can all run to their return.
\<close>

theorem singleton_instance:
  "length (snd (interleave sched (start n))) = n \<and>
   (\<forall>i < n. \<forall>r. snd (interleave sched (start n)) ! i = Returned r \<longrightarrow> r = Some 0) \<and>
   allocated (fst (interleave sched (start n))) \<le> 1 \<and>
   connects (fst (interleave sched (start n))) \<le> 1 \<and>
   bootstraps (fst (interleave sched (start n))) \<le> 1 \<and>
   (0 < n \<and> list_all is_returned (snd (interleave sched (start n))) \<longrightarrow>
      allocated (fst (interleave sched (start n))) = 1 \<and>
      connects (fst (interleave sched (start n))) = 1 \<and>
      bootstraps (fst (interleave sched (start n))) = 1) \<and>
   (\<exists>rest. list_all is_returned (snd (interleave (sched @ rest) (start n))))"
proof -
  obtain s ts where c: "interleave sched (start n) = (s, ts)"
    by (cases "interleave sched (start n)")
  have inv: "invariant (s, ts)"
    using invariant_interleave [OF invariant_start, of sched n] by (simp add: c)
  have "length (snd (interleave sched (start n))) = length (snd (start n))"
    by (rule length_interleave)
  then have len: "length ts = n"
    unfolding c by (simp add: start_def)
  have same: "r = Some 0" if "i < n" "ts ! i = Returned r" for i r
    using inv that len by (auto intro: invariant_returned)
  have once: "allocated s = 1 \<and> connects s = 1 \<and> bootstraps s = 1"
    if "0 < n" "list_all is_returned ts"
    using invariant_finished [OF inv] that len by (simp add: initialised_def)
  obtain rest where "list_all is_returned (snd (interleave rest (s, ts)))"
    using all_return [OF inv] by blast
  then have "list_all is_returned (snd (interleave (sched @ rest) (start n)))"
    by (simp add: interleave_append c)
  then have "\<exists>rest. list_all is_returned (snd (interleave (sched @ rest) (start n)))"
    by blast
  with len same once invariant_counters [OF inv] show ?thesis
    unfolding c by simp
qed

theorem singleton_instance_witness:
  "interleave [0, 1, 0, 1, 0, 1, 0, 0, 0, 0, 0, 1, 0, 0, 0, 1, 1, 1, 1, 1, 1, 2, 2] (start 3) =
     (\<lparr>cls_instance = Some 0, cls_dcl = True, cls_lock = False,
       allocated = 1, connects = 1, bootstraps = 1\<rparr>,
      [Returned (Some 0), Returned (Some 0), Returned (Some 0)]) \<and>
   bootstraps (fst (interleave
      [0, 1, 0, 1, 0, 1, 0, 0, 0, 0, 0, 1, 0, 0, 0, 1, 1, 1, 1, 1, 1, 2, 2] (start 3))) = 1"
proof -
  let ?sched = "[0, 1, 0, 1, 0, 1, 0, 0, 0, 0, 0, 1, 0, 0, 0, 1, 1, 1, 1, 1, 1, 2, 2] :: nat list"
  have eq: "interleave ?sched (start 3) =
     (\<lparr>cls_instance = Some 0, cls_dcl = True, cls_lock = False,
       allocated = 1, connects = 1, bootstraps = 1\<rparr>,
      [Returned (Some 0), Returned (Some 0), Returned (Some 0)])"
    by code_simp
  have fin: "(0::nat) < 3 \<and> list_all is_returned (snd (interleave ?sched (start 3)))"
    unfolding eq by (simp add: is_returned_def)
  have "bootstraps (fst (interleave ?sched (start 3))) = 1"
    using singleton_instance [of ?sched 3] fin by blast
  with eq show ?thesis by blast
qed

end
